theory Spec2Isabelle
  imports Main "HOL-Library.Word"
begin

chapter \<open>The model\<close>

text \<open>
  Errors of the modelled code are values: a failed \<open>assert\<close>, the \<open>std::out_of_range\<close> that
  \<open>std::bitset\<close> throws, and a read outside an array.
\<close>

datatype error = Assertion_failed | Out_of_range | Out_of_bounds

section \<open>Reference concordance: \<open>blt_common/snp_util.hh\<close>\<close>

text \<open>
  The build modelled is the debug build on an LP64 platform: \<open>assert\<close> is active,
  \<open>unsigned\<close> has 32 bits and a container size (\<open>size_t\<close>) has 64.

  \<open>snp_pos_info\<close>, \<open>base_call\<close> and \<open>BASE_ID::ANY\<close> are declared in headers that are not
  among the sources (\<open>snp_pos_info.hh\<close>, \<open>seq_util.hh\<close>). The records below hold the members
  that \<open>is_spi_allref\<close> reads, and the sentinel \<open>ANY\<close> is a parameter of the model: the
  numeric value of the enumerator.
\<close>

record base_call =
  base_id :: "8 word"

record snp_pos_info =
  calls :: "base_call list"

text \<open>
  The loop \<open>for(unsigned i(0);i<n_calls;++i)\<close>. The counter stays below \<open>n_calls\<close>, which is
  below \<open>2 ^ 32\<close>, so \<open>++i\<close> never wraps and the counter is a natural number here.
  \<open>obs_id\<close> is a \<open>uint8_t\<close>; in \<open>ref_gt!=obs_id\<close> it is converted to \<open>unsigned\<close>.
\<close>

function is_spi_allref_loop :: "nat \<Rightarrow> snp_pos_info \<Rightarrow> 32 word \<Rightarrow> nat \<Rightarrow> nat \<Rightarrow> error + bool" where
  "is_spi_allref_loop ANY pi ref_gt n_calls i =
     (if i < n_calls then
        (let obs_id = base_id (calls pi ! i) in
         if unat obs_id = ANY then Inl Assertion_failed
         else if ref_gt \<noteq> ucast obs_id then Inr False
         else is_spi_allref_loop ANY pi ref_gt n_calls (Suc i))
      else Inr True)"
  by pat_completeness auto
termination
  by (relation "measure (\<lambda>(ANY, pi, ref_gt, n_calls, i). n_calls - i)") auto

text \<open>
  \<open>const unsigned n_calls(pi.calls.size())\<close> narrows the size to 32 bits.
\<close>

definition is_spi_allref :: "nat \<Rightarrow> snp_pos_info \<Rightarrow> 32 word \<Rightarrow> error + bool" where
  "is_spi_allref ANY pi ref_gt =
     is_spi_allref_loop ANY pi ref_gt (length (calls pi) mod 2 ^ 32) 0"

text \<open>
  The same scan written by recursion on the evidence, used to reason about the loop.
\<close>

fun scan_calls :: "nat \<Rightarrow> 32 word \<Rightarrow> base_call list \<Rightarrow> error + bool" where
  "scan_calls ANY ref_gt [] = Inr True"
| "scan_calls ANY ref_gt (c # cs) =
     (if unat (base_id c) = ANY then Inl Assertion_failed
      else if ref_gt \<noteq> ucast (base_id c) then Inr False
      else scan_calls ANY ref_gt cs)"


section \<open>Sparse position ledger: \<open>starling_common/depth_buffer.hh\<close>\<close>

text \<open>
  Modelled from the spec: \<open>pos_t\<close> is declared in \<open>blt_util/blt_types.hh\<close>, which is not among
  the sources; the spec calls a coordinate a signed integer position. Only equality of
  coordinates is used.

  \<open>_data\<close> is a \<open>std::map<pos_t,unsigned>\<close>: a finite map from coordinates to 32-bit counts.
  \<open>find\<close> is the lookup, \<open>_data[pos] = 1\<close> and \<open>i->second += 1\<close> are updates at one key (the
  addition wraps at \<open>2 ^ 32\<close>), \<open>erase\<close> removes one key.
\<close>

type_synonym pos_t = int

record depth_buffer =
  data :: "pos_t \<rightharpoonup> 32 word"

text \<open>The implicitly defined constructor: an empty map.\<close>

definition depth_buffer_init :: depth_buffer where
  "depth_buffer_init = \<lparr>data = Map.empty\<rparr>"

definition val :: "depth_buffer \<Rightarrow> pos_t \<Rightarrow> 32 word" where
  "val b pos = (case data b pos of None \<Rightarrow> 0 | Some v \<Rightarrow> v)"

definition inc :: "depth_buffer \<Rightarrow> pos_t \<Rightarrow> depth_buffer" where
  "inc b pos =
     (case data b pos of
        None \<Rightarrow> b\<lparr>data := (data b)(pos \<mapsto> 1)\<rparr>
      | Some v \<Rightarrow> b\<lparr>data := (data b)(pos \<mapsto> v + 1)\<rparr>)"

definition clear_pos :: "depth_buffer \<Rightarrow> pos_t \<Rightarrow> depth_buffer" where
  "clear_pos b pos = b\<lparr>data := (data b)(pos := None)\<rparr>"

text \<open>
  Sequences of calls on one ledger. \<open>val\<close> is a \<open>const\<close> member: the call returns its value
  and the ledger is the one it was called on.
\<close>

datatype ledger_call = Val pos_t | Inc pos_t | Clear_pos pos_t

fun ledger_step :: "depth_buffer \<Rightarrow> ledger_call \<Rightarrow> depth_buffer" where
  "ledger_step b (Val pos) = b"
| "ledger_step b (Inc pos) = inc b pos"
| "ledger_step b (Clear_pos pos) = clear_pos b pos"

definition run_calls :: "depth_buffer \<Rightarrow> ledger_call list \<Rightarrow> depth_buffer" where
  "run_calls b cs = foldl ledger_step b cs"

text \<open>The representation invariant of the spec: no stored entry has the value zero.\<close>

definition no_zero_entry :: "depth_buffer \<Rightarrow> bool" where
  "no_zero_entry b = (\<forall>pos. data b pos \<noteq> Some 0)"

text \<open>
  A sequence of calls is free of overflow when no \<open>inc\<close> in it meets a count of
  \<open>UINT_MAX = 2 ^ 32 - 1\<close>.
\<close>

fun no_overflow :: "depth_buffer \<Rightarrow> ledger_call list \<Rightarrow> bool" where
  "no_overflow b [] = True"
| "no_overflow b (Inc pos # cs) = (val b pos \<noteq> - 1 \<and> no_overflow (inc b pos) cs)"
| "no_overflow b (c # cs) = no_overflow (ledger_step b c) cs"

section \<open>Stage-gated position processor: \<open>blt_util/pos_processor_base.hh\<close>\<close>

text \<open>
  The base class holds one member, the skip flag; a subclass is an extension of the record.
  \<open>process_pos\<close> is pure virtual: the implementation of the subclass is a parameter of
  \<open>check_process_pos\<close>, a function on the whole object (the flag is \<open>protected\<close> and
  \<open>mutable\<close>, so the subclass may change it). \<open>stage_no\<close> is an \<open>int\<close>: 32 bits, read in two's complement.
\<close>

record pos_processor_base =
  is_skip_process_pos :: bool

type_synonym 'a process_pos_t =
  "'a pos_processor_base_scheme \<Rightarrow> 32 word \<Rightarrow> pos_t \<Rightarrow> 'a pos_processor_base_scheme"

text \<open>The constructor \<open>pos_processor_base() : _is_skip_process_pos(false)\<close>.\<close>

definition pos_processor_base_init :: "'a \<Rightarrow> 'a pos_processor_base_scheme" where
  "pos_processor_base_init sub = \<lparr>is_skip_process_pos = False, \<dots> = sub\<rparr>"

definition check_process_pos ::
  "'a process_pos_t \<Rightarrow> 'a pos_processor_base_scheme \<Rightarrow> 32 word \<Rightarrow> pos_t \<Rightarrow>
   'a pos_processor_base_scheme" where
  "check_process_pos process_pos p stage_no pos =
     (if is_skip_process_pos p then p else process_pos p stage_no pos)"

text \<open>A caller that dispatches a sequence of (stage, position) pairs, one call each.\<close>

definition check_process_pos_all ::
  "'a process_pos_t \<Rightarrow> 'a pos_processor_base_scheme \<Rightarrow> (32 word \<times> pos_t) list \<Rightarrow>
   'a pos_processor_base_scheme" where
  "check_process_pos_all process_pos p cs =
     foldl (\<lambda>q (stage_no, pos). check_process_pos process_pos q stage_no pos) p cs"

text \<open>
  The stub subclass of the spec's test: its hook only records the arguments of each
  invocation, in order.
\<close>

record recording_processor = pos_processor_base +
  invocations :: "(32 word \<times> pos_t) list"

definition recording_process_pos :: "recording_processor \<Rightarrow> 32 word \<Rightarrow> pos_t \<Rightarrow> recording_processor" where
  "recording_process_pos p stage_no pos = p\<lparr>invocations := invocations p @ [(stage_no, pos)]\<rparr>"

section \<open>Site annotation record and filter encoder: \<open>starling_common/gvcf_locus_info.cpp\<close>\<close>

text \<open>
  \<open>gvcf_locus_info.hh\<close> is not among the sources. \<open>filters\<close> is a \<open>std::bitset\<close> of
  \<open>VCF_FILTERS::SIZE\<close> bits: a word of that length, so that \<open>VCF_FILTERS::SIZE\<close> is
  \<open>LENGTH('n)\<close>. \<open>test\<close> and \<open>set\<close> throw \<open>std::out_of_range\<close> for a position that is not
  below the size. The label table \<open>VCF_FILTERS::get_label\<close> is a parameter of the model.
  The records hold the members that this file reads; the enumeration
  \<open>MODIFIED_SITE_GT\<close> is a number.
\<close>

record (overloaded) 'n shared_modifiers =
  filters :: "'n::len word"

record (overloaded) 'n site_modifiers = "'n::len shared_modifiers" +
  is_unknown :: bool
  is_covered :: bool
  is_used_covered :: bool
  is_zero_ploidy :: bool
  is_block :: bool
  modified_gt :: nat

definition bitset_none :: "'n::len word \<Rightarrow> bool" where
  "bitset_none bs = (bs = 0)"

definition bitset_test :: "'n::len word \<Rightarrow> nat \<Rightarrow> error + bool" where
  "bitset_test bs i = (if i < LENGTH('n) then Inr (bit bs i) else Inl Out_of_range)"

definition bitset_set :: "'n::len word \<Rightarrow> nat \<Rightarrow> error + 'n word" where
  "bitset_set bs i = (if i < LENGTH('n) then Inr (set_bit i bs) else Inl Out_of_range)"

text \<open>Setting the bits of a list of filter kinds, one after the other, in the list's order.\<close>

fun bitset_set_all :: "'n::len word \<Rightarrow> nat list \<Rightarrow> error + 'n word" where
  "bitset_set_all bs [] = Inr bs"
| "bitset_set_all bs (i # is) =
     (case bitset_set bs i of Inl e \<Rightarrow> Inl e | Inr bs' \<Rightarrow> bitset_set_all bs' is)"

text \<open>
  The output stream is the text written to it so far; \<open>os << s\<close> appends. The loop
  \<open>for(unsigned i(0);i<VCF_FILTERS::SIZE;++i)\<close> carries \<open>is_sep\<close> and the stream.
\<close>

function write_filters_loop ::
  "(nat \<Rightarrow> string) \<Rightarrow> 'n::len word \<Rightarrow> nat \<Rightarrow> bool \<Rightarrow> string \<Rightarrow> error + string" where
  "write_filters_loop get_label fs i is_sep os =
     (if i < LENGTH('n) then
        (case bitset_test fs i of
           Inl e \<Rightarrow> Inl e
         | Inr True \<Rightarrow>
             write_filters_loop get_label fs (Suc i) True
               ((if is_sep then os @ '';'' else os) @ get_label i)
         | Inr False \<Rightarrow> write_filters_loop get_label fs (Suc i) is_sep os)
      else Inr os)"
  by pat_completeness auto
termination
  by (relation "measure (\<lambda>(get_label, fs, i, is_sep, os). size fs - i)")
    (auto simp: word_size)

definition write_filters ::
  "(nat \<Rightarrow> string) \<Rightarrow> ('n::len, 'm) shared_modifiers_scheme \<Rightarrow> string \<Rightarrow> error + string" where
  "write_filters get_label r os =
     (if bitset_none (filters r) then Inr (os @ ''PASS'')
      else write_filters_loop get_label (filters r) 0 False os)"

text \<open>
  The words of the spec, to compare the loop with: the set filter kinds in the order of
  the enumeration, and their labels joined by \<open>;\<close>.
\<close>

definition set_kinds :: "'n::len word \<Rightarrow> nat list" where
  "set_kinds bs = filter (bit bs) [0..<LENGTH('n)]"

fun join_labels :: "string list \<Rightarrow> string" where
  "join_labels [] = []"
| "join_labels [l] = l"
| "join_labels (l # m # ls) = l @ '';'' @ join_labels (m # ls)"

definition is_space :: "char \<Rightarrow> bool" where
  "is_space c = (c \<in> set [CHR '' '', CHR 0x09, CHR 0x0A, CHR 0x0B, CHR 0x0C, CHR 0x0D])"

definition label_ok :: "string \<Rightarrow> bool" where
  "label_ok l = (l \<noteq> [] \<and> \<not> list_ex (\<lambda>c. is_space c \<or> c = CHR '';'') l)"

text \<open>
  A caller that sets the bits of a list of filter kinds on a record, in the list's order,
  and then writes the filters.
\<close>

definition write_filters_after_set ::
  "(nat \<Rightarrow> string) \<Rightarrow> ('n::len, 'm) shared_modifiers_scheme \<Rightarrow> nat list \<Rightarrow> string \<Rightarrow> error + string" where
  "write_filters_after_set get_label r is os =
     (case bitset_set_all (filters r) is of
        Inl e \<Rightarrow> Inl e
      | Inr bs \<Rightarrow> write_filters get_label (r\<lparr>filters := bs\<rparr>) os)"

text \<open>The label table of the spec's example, for the enumeration \<open>[F1, F2, F3]\<close>.\<close>

definition F_label :: "nat \<Rightarrow> string" where
  "F_label i = [''F1'', ''F2'', ''F3''] ! i"

section \<open>Counting bases: \<open>libexec/countFastaBases.cpp\<close>\<close>

text \<open>
  A byte of the input is an 8-bit word. \<open>static_cast<int8_t>(*b)\<close> reads it in two's
  complement, whether \<open>char\<close> is signed or not: \<open>sint\<close>. The table \<open>isBase\<close> has 128 entries;
  a read at an index outside \<open>[0, 127]\<close> is a read outside the array.
\<close>

type_synonym byte = "8 word"

definition isBase :: "bool list" where
  "isBase =
    [False,False,False,False, False,False,False,False, False,False,False,False, False,False,False,False,
     False,False,False,False, False,False,False,False, False,False,False,False, False,False,False,False,
     False,False,False,False, False,False,False,False, False,False,False,False, False,False,False,False,
     False,False,False,False, False,False,False,False, False,False,False,False, False,False,False,False,
     False,True,False,True, False,False,False,True, False,False,False,False, False,False,False,False,
     False,False,False,False, True,False,False,False, False,False,False,False, False,False,False,False,
     False,True,False,True, False,False,False,True, False,False,False,False, False,False,False,False,
     False,False,False,False, True,False,False,False, False,False,False,False, False,False,False,False]"

definition isBase_at :: "int \<Rightarrow> error + bool" where
  "isBase_at i = (if 0 \<le> i \<and> i < 128 then Inr (isBase ! nat i) else Inl Out_of_bounds)"

text \<open>
  \<open>scan_result\<close>. The constructor leaves the two counts uninitialised; they are zero here,
  and they are not read before \<open>reset\<close> has set them. \<open>report_os\<close> is the list of rows
  written to it: file name, contig name, known count, total count.
\<close>

record scan_result =
  fileName :: string
  contigName :: "byte list"
  knownCount :: "32 word"
  totalCount :: "32 word"
  isSet :: bool

type_synonym report_row = "string \<times> byte list \<times> 32 word \<times> 32 word"

definition scan_result_init :: "string \<Rightarrow> scan_result" where
  "scan_result_init f =
     \<lparr>fileName = f, contigName = [], knownCount = 0, totalCount = 0, isSet = False\<rparr>"

definition reset :: "scan_result \<Rightarrow> byte list \<Rightarrow> scan_result" where
  "reset sr name = sr\<lparr>contigName := name, knownCount := 0, totalCount := 0, isSet := True\<rparr>"

definition report :: "scan_result \<Rightarrow> report_row list \<Rightarrow> scan_result \<times> report_row list" where
  "report sr report_os =
     (if \<not> isSet sr then (sr, report_os)
      else (sr\<lparr>isSet := False\<rparr>,
            report_os @ [(fileName sr, contigName sr, knownCount sr, totalCount sr)]))"

text \<open>
  \<open>isspace\<close> in the C locale, and \<open>next_word\<close>: a pointer into the buffer is the rest of the
  buffer from there. The buffer as a C string ends at its first NUL.
\<close>

definition isspace :: "byte \<Rightarrow> bool" where
  "isspace c = (c \<in> set [0x20, 0x09, 0x0A, 0x0B, 0x0C, 0x0D])"

fun next_word :: "byte list \<Rightarrow> bool \<Rightarrow> byte list" where
  "next_word [] is_end = []"
| "next_word (c # cs) is_end = (if is_end \<noteq> isspace c then next_word cs is_end else c # cs)"

definition c_str :: "byte list \<Rightarrow> byte list" where
  "c_str buff = takeWhile (\<lambda>c. c \<noteq> 0) buff"

text \<open>
  The stream is the bytes not yet read. \<open>ref_is.getline(buff,buff_size)\<close> with
  \<open>buff_size = 512\<close> extracts characters until the end of the input (\<open>eofbit\<close>), until the
  next character is the newline (which is extracted and not stored), or until 511
  characters are stored (\<open>failbit\<close>), tested in this order; it sets \<open>failbit\<close> too when it
  extracts nothing. Reading from bytes in memory never sets \<open>badbit\<close>. After a last line
  without a newline \<open>eofbit\<close> is set and nothing is left, so the next call extracts nothing
  and the loop ends, as it does here on the empty rest.
\<close>

datatype getline_end = Hit_eof | Hit_delim | Hit_count

fun getline_chars :: "nat \<Rightarrow> byte list \<Rightarrow> byte list \<times> byte list \<times> getline_end" where
  "getline_chars k [] = ([], [], Hit_eof)"
| "getline_chars k (c # cs) =
     (if c = 0x0A then ([], cs, Hit_delim)
      else if k = 0 then ([], c # cs, Hit_count)
      else (case getline_chars (k - 1) cs of (l, r, e) \<Rightarrow> (c # l, r, e)))"

text \<open>
  The counting loop \<open>for(const char* b(buff); *b; ++b)\<close>, on the buffer as a C string.
\<close>

fun count_bases :: "byte list \<Rightarrow> scan_result \<Rightarrow> error + scan_result" where
  "count_bases [] sr = Inr sr"
| "count_bases (b # bs) sr =
     (if b = 0x0D then count_bases bs sr
      else (case isBase_at (sint b) of
              Inl e \<Rightarrow> Inl e
            | Inr known \<Rightarrow>
                count_bases bs
                  (sr\<lparr>totalCount := totalCount sr + 1,
                      knownCount := (if known then knownCount sr + 1 else knownCount sr)\<rparr>)))"

text \<open>
  The body of \<open>while(true)\<close> after the read: \<open>is_wrap\<close> is set when the read failed without
  reaching the end of the input, \<open>line_no\<close> is advanced otherwise. The messages written to
  \<open>log_os\<close> are left out.
\<close>

record seq_state =
  is_header_wrap :: bool
  line_no :: "32 word"
  sr :: scan_result
  report_os :: "report_row list"

datatype step = Continue seq_state | Return bool seq_state

definition process_line :: "seq_state \<Rightarrow> byte list \<Rightarrow> bool \<Rightarrow> error + step" where
  "process_line st buff is_wrap =
     (let st = (if is_wrap then st else st\<lparr>line_no := line_no st + 1\<rparr>);
          line = c_str buff in
      if is_header_wrap st then
        Inr (Continue (if \<not> is_wrap then st\<lparr>is_header_wrap := False\<rparr> else st))
      else if line \<noteq> [] \<and> hd line = 0x3E then
        (let st = (if is_wrap then st\<lparr>is_header_wrap := True\<rparr> else st);
             (sr', os') = report (sr st) (report_os st);
             st = st\<lparr>sr := sr', report_os := os'\<rparr>;
             ns = next_word (tl line) False in
         if ns = [] then Inr (Return False st)
         else
           (let ne = next_word (tl ns) True in
            Inr (Continue (st\<lparr>sr := reset (sr st) (take (length ns - length ne) ns)\<rparr>))))
      else if line_no st + (if is_wrap then 1 else 0) \<le> 1 then Inr (Return False st)
      else
        (case count_bases line (sr st) of
           Inl e \<Rightarrow> Inl e
         | Inr sr' \<Rightarrow> Inr (Continue (st\<lparr>sr := sr'\<rparr>))))"

function get_seq_counts_loop :: "seq_state \<Rightarrow> byte list \<Rightarrow> error + bool \<times> seq_state" where
  "get_seq_counts_loop st ref_is =
     (case getline_chars 511 ref_is of
        (buff, ref_is', e) \<Rightarrow>
          if e = Hit_eof \<and> buff = [] then Inr (True, st)
          else
            (case process_line st buff (e = Hit_count) of
               Inl err \<Rightarrow> Inl err
             | Inr (Return ret st') \<Rightarrow> Inr (ret, st')
             | Inr (Continue st') \<Rightarrow> get_seq_counts_loop st' ref_is'))"
  by pat_completeness auto
termination
proof (relation "measure (\<lambda>(st, ref_is). length ref_is)")
  show "wf (measure (\<lambda>(st, ref_is). length ref_is))" by simp
next
  fix st :: seq_state and ref_is x buff y ref_is' e a st'
  assume g: "(buff, y) = getline_chars 511 ref_is" "(ref_is', e) = y"
    and ne: "\<not> (e = Hit_eof \<and> buff = [])"
  have consumed: "getline_chars k bs = (l, r, e) \<Longrightarrow>
      length r \<le> length bs \<and> (e = Hit_eof \<longrightarrow> r = [])
      \<and> (l \<noteq> [] \<or> e = Hit_delim \<longrightarrow> length r < length bs)
      \<and> (e = Hit_count \<longrightarrow> length l = k)"
    for k bs l r e
    by (induction k bs arbitrary: l r e rule: getline_chars.induct)
       (auto split: if_splits prod.splits)
  have "getline_chars 511 ref_is = (buff, ref_is', e)"
    using g by simp
  from consumed [OF this] ne
  have "length ref_is' < length ref_is"
    by (cases e) auto
  then show "((st', ref_is'), (st, ref_is)) \<in> measure (\<lambda>(st, ref_is). length ref_is)"
    by simp
qed

text \<open>
  \<open>get_seq_counts\<close>: the value returned and the rows reported. The destructor of \<open>sr\<close> reports
  a pending row when the function returns.
\<close>

definition get_seq_counts :: "byte list \<Rightarrow> string \<Rightarrow> error + bool \<times> report_row list" where
  "get_seq_counts ref_is f =
     (case get_seq_counts_loop
             \<lparr>is_header_wrap = False, line_no = 0, sr = scan_result_init f, report_os = []\<rparr> ref_is of
        Inl err \<Rightarrow> Inl err
      | Inr (ret, st) \<Rightarrow> Inr (ret, snd (report (sr st) (report_os st))))"

chapter \<open>Properties\<close>

section \<open>Reference concordance\<close>

declare is_spi_allref_loop.simps [simp del]

lemma is_spi_allref_loop_scan:
  "n \<le> length (calls pi) \<Longrightarrow>
   is_spi_allref_loop ANY pi ref_gt n i = scan_calls ANY ref_gt (drop i (take n (calls pi)))"
proof (induction ANY pi ref_gt n i rule: is_spi_allref_loop.induct)
  case (1 ANY pi ref_gt n_calls i)
  show ?case
  proof (cases "i < n_calls")
    case False
    then show ?thesis
      by (simp add: is_spi_allref_loop.simps [of ANY pi ref_gt n_calls i])
  next
    case True
    with "1.prems" have i: "i < length (take n_calls (calls pi))"
      by simp
    have d: "drop i (take n_calls (calls pi)) =
             (calls pi ! i) # drop (Suc i) (take n_calls (calls pi))"
      using i True by (simp add: Cons_nth_drop_Suc [symmetric])
    show ?thesis
      using True "1.IH" "1.prems"
      by (simp add: is_spi_allref_loop.simps [of ANY pi ref_gt n_calls i] d Let_def)
  qed
qed

lemma is_spi_allref_scan:
  "is_spi_allref ANY pi ref_gt =
   scan_calls ANY ref_gt (take (length (calls pi) mod 2 ^ 32) (calls pi))"
  by (simp add: is_spi_allref_def is_spi_allref_loop_scan)

lemma scan_calls_no_ANY:
  "\<forall>c\<in>set cs. unat (base_id c) \<noteq> ANY \<Longrightarrow>
   scan_calls ANY ref_gt cs = Inr (\<forall>c\<in>set cs. ucast (base_id c) = ref_gt)"
  by (induction cs) auto

lemma scan_calls_first_nonref:
  "ucast (base_id c) \<noteq> ref_gt \<Longrightarrow>
   scan_calls ANY ref_gt (xs @ c # ys) = scan_calls ANY ref_gt (xs @ [c])"
  by (induction xs) auto

lemma scan_calls_nonref_not_True:
  "ucast (base_id c) \<noteq> ref_gt \<Longrightarrow> scan_calls ANY ref_gt (xs @ [c]) \<noteq> Inr True"
  by (induction xs) auto

text \<open>
  Claim C3, as the code has it. For evidence of fewer than \<open>2 ^ 32\<close> calls, none of which is
  the sentinel \<open>ANY\<close>, \<open>is_spi_allref\<close> returns normally, and it returns true if and only if
  every observed base identifier equals \<open>ref_gt\<close>; for empty evidence it returns true, for
  every reference allele.
\<close>

theorem is_spi_allref_iff_all_ref:
  assumes "length (calls pi) < 2 ^ 32"
    and "\<forall>c\<in>set (calls pi). unat (base_id c) \<noteq> ANY"
  shows "is_spi_allref ANY pi ref_gt = Inr (\<forall>c\<in>set (calls pi). ucast (base_id c) = ref_gt)
       \<and> (calls pi = [] \<longrightarrow> is_spi_allref ANY pi ref_gt = Inr True)"
  using assms by (simp add: is_spi_allref_scan scan_calls_no_ANY)

text \<open>
  The examples of the spec, with \<open>A = 0\<close>, \<open>C = 1\<close> and \<open>ANY = 4\<close>: \<open>[A,A,C]\<close>, \<open>[A,A,A]\<close> and
  \<open>[]\<close> against \<open>A\<close>.
\<close>

theorem is_spi_allref_iff_all_ref_witness:
  "is_spi_allref 4 \<lparr>calls = [\<lparr>base_id = 0\<rparr>, \<lparr>base_id = 0\<rparr>, \<lparr>base_id = 1\<rparr>]\<rparr> 0 = Inr False
   \<and> is_spi_allref 4 \<lparr>calls = [\<lparr>base_id = 0\<rparr>, \<lparr>base_id = 0\<rparr>, \<lparr>base_id = 0\<rparr>]\<rparr> 0 = Inr True
   \<and> is_spi_allref 4 \<lparr>calls = []\<rparr> 0 = Inr True"
  using is_spi_allref_iff_all_ref [of "\<lparr>calls = [\<lparr>base_id = 0\<rparr>, \<lparr>base_id = 0\<rparr>, \<lparr>base_id = 1\<rparr>]\<rparr>" 4 0]
    is_spi_allref_iff_all_ref [of "\<lparr>calls = [\<lparr>base_id = 0\<rparr>, \<lparr>base_id = 0\<rparr>, \<lparr>base_id = 0\<rparr>]\<rparr>" 4 0]
    is_spi_allref_iff_all_ref [of "\<lparr>calls = []\<rparr>" 4 0]
  by simp

text \<open>
  Without the bound on the size the claim fails. For \<open>2 ^ 32\<close> calls, all of them \<open>C\<close>,
  \<open>n_calls\<close> is \<open>0\<close>: no call is examined and the result is true, although no call is the
  sentinel and every call differs from the reference \<open>A\<close>.
\<close>

theorem is_spi_allref_narrowing_counterexample:
  "is_spi_allref 4 \<lparr>calls = replicate 4294967296 \<lparr>base_id = 1\<rparr>\<rparr> 0 = Inr True
   \<and> (\<exists>c\<in>set (replicate 4294967296 \<lparr>base_id = 1\<rparr>). ucast (base_id c) \<noteq> (0 :: 32 word))
   \<and> \<not> (\<exists>c\<in>set (replicate 4294967296 \<lparr>base_id = 1\<rparr>). unat (base_id c) = 4)"
  by (simp add: is_spi_allref_scan)

lemma scan_calls_take_first_nonref:
  assumes "i < n" and "n \<le> length cs" and "ucast (base_id (cs ! i)) \<noteq> ref_gt"
  shows "scan_calls ANY ref_gt (take n cs) = scan_calls ANY ref_gt (take (Suc i) cs)"
proof -
  let ?xs = "take n cs"
  have len: "i < length ?xs"
    using assms(1,2) by simp
  have nth: "?xs ! i = cs ! i"
    using assms(1) by simp
  have pre: "take i ?xs = take i cs"
    using assms(1) by (simp add: min_absorb1)
  have "?xs = take i ?xs @ (?xs ! i) # drop (Suc i) ?xs"
    using len by (rule id_take_nth_drop)
  then have "?xs = take i cs @ (cs ! i) # drop (Suc i) ?xs"
    by (simp only: nth pre)
  then have "scan_calls ANY ref_gt ?xs = scan_calls ANY ref_gt (take i cs @ [cs ! i])"
    using scan_calls_first_nonref [OF assms(3), of ANY "take i cs" "drop (Suc i) ?xs"]
    by simp
  moreover have "take (Suc i) cs = take i cs @ [cs ! i]"
    using assms(1,2) by (simp add: take_Suc_conv_app_nth)
  ultimately show ?thesis
    by simp
qed

lemma scan_calls_Assertion_failed:
  "scan_calls ANY ref_gt cs = Inl Assertion_failed \<Longrightarrow>
   \<exists>j<length cs. unat (base_id (cs ! j)) = ANY \<and> (\<forall>k<j. ucast (base_id (cs ! k)) = ref_gt)"
proof (induction cs)
  case Nil
  then show ?case by simp
next
  case (Cons c cs)
  show ?case
  proof (cases "unat (base_id c) = ANY")
    case True
    then have "unat (base_id ((c # cs) ! 0)) = ANY \<and> (\<forall>k<0. ucast (base_id ((c # cs) ! k)) = ref_gt)"
      by simp
    then show ?thesis by blast
  next
    case False
    with Cons.prems have r: "ucast (base_id c) = ref_gt"
      and "scan_calls ANY ref_gt cs = Inl Assertion_failed"
      by (auto split: if_splits)
    with Cons.IH obtain j where j: "j < length cs" "unat (base_id (cs ! j)) = ANY"
      "\<forall>k<j. ucast (base_id (cs ! k)) = ref_gt"
      by blast
    have "\<forall>k<Suc j. ucast (base_id ((c # cs) ! k)) = ref_gt"
      using j(3) r by (auto simp: less_Suc_eq_0_disj)
    with j(1,2) have "Suc j < length (c # cs) \<and> unat (base_id ((c # cs) ! Suc j)) = ANY
        \<and> (\<forall>k<Suc j. ucast (base_id ((c # cs) ! k)) = ref_gt)"
      by simp
    then show ?thesis by blast
  qed
qed

text \<open>
  Claim C9, as the code has it. Let the evidence have a call at index \<open>i\<close> that differs from
  the reference. Then no entry after index \<open>i\<close> is examined, whatever the size of the
  evidence: the outcome is the same for every evidence of the same size that agrees with
  it up to and including index \<open>i\<close>, and the assertion fails only if some entry at an index
  up to and including \<open>i\<close> is the sentinel, so a sentinel after index \<open>i\<close> never fails the
  assertion. When the evidence has fewer than \<open>2 ^ 32\<close> calls, the outcome is moreover that
  of the evidence cut off after index \<open>i\<close>, it is never true, and it is false when no entry
  at an index up to and including \<open>i\<close> is the sentinel.
\<close>

theorem is_spi_allref_stops_at_first_nonref:
  assumes "i < length (calls pi)"
    and "ucast (base_id (calls pi ! i)) \<noteq> ref_gt"
  shows "(length (calls pi') = length (calls pi)
          \<and> take (Suc i) (calls pi') = take (Suc i) (calls pi) \<longrightarrow>
            is_spi_allref ANY pi' ref_gt = is_spi_allref ANY pi ref_gt)
       \<and> (is_spi_allref ANY pi ref_gt = Inl Assertion_failed \<longrightarrow>
            (\<exists>j\<le>i. unat (base_id (calls pi ! j)) = ANY))
       \<and> (length (calls pi) < 2 ^ 32 \<longrightarrow>
            is_spi_allref ANY pi ref_gt =
              is_spi_allref ANY (pi\<lparr>calls := take (Suc i) (calls pi)\<rparr>) ref_gt
            \<and> is_spi_allref ANY pi ref_gt \<noteq> Inr True
            \<and> ((\<forall>j\<le>i. unat (base_id (calls pi ! j)) \<noteq> ANY) \<longrightarrow>
                 is_spi_allref ANY pi ref_gt = Inr False))"
proof -
  let ?cs = "calls pi"
  let ?n = "length ?cs mod 2 ^ 32"
  have n_le: "?n \<le> length ?cs"
    by (rule mod_less_eq_dividend)
  have res: "is_spi_allref ANY pi ref_gt = scan_calls ANY ref_gt (take ?n ?cs)"
    by (rule is_spi_allref_scan)
  have cut: "scan_calls ANY ref_gt (take ?n ?cs) = scan_calls ANY ref_gt (take (Suc i) ?cs)"
    if "i < ?n"
    using that n_le assms(2) by (rule scan_calls_take_first_nonref)

  have same: "is_spi_allref ANY pi' ref_gt = is_spi_allref ANY pi ref_gt"
    if len: "length (calls pi') = length ?cs"
      and agree: "take (Suc i) (calls pi') = take (Suc i) ?cs"
  proof -
    let ?cs' = "calls pi'"
    have res': "is_spi_allref ANY pi' ref_gt = scan_calls ANY ref_gt (take ?n ?cs')"
      using is_spi_allref_scan [of ANY pi' ref_gt] len by simp
    show ?thesis
    proof (cases "i < ?n")
      case True
      have "?cs' ! i = take (Suc i) ?cs' ! i"
        by simp
      also have "\<dots> = ?cs ! i"
        by (simp add: agree)
      finally have nonref': "ucast (base_id (?cs' ! i)) \<noteq> ref_gt"
        using assms(2) by simp
      have "?n \<le> length ?cs'"
        using n_le len by simp
      with True have "scan_calls ANY ref_gt (take ?n ?cs') = scan_calls ANY ref_gt (take (Suc i) ?cs')"
        using nonref' by (rule scan_calls_take_first_nonref)
      then show ?thesis
        using cut [OF True] res res' agree by simp
    next
      case False
      then have "take ?n ?cs' = take ?n (take (Suc i) ?cs')" "take ?n ?cs = take ?n (take (Suc i) ?cs)"
        by (simp_all add: min_absorb1)
      then have "take ?n ?cs' = take ?n ?cs"
        using agree by simp
      then show ?thesis
        using res res' by simp
    qed
  qed

  have early: "\<exists>j\<le>i. unat (base_id (?cs ! j)) = ANY"
    if "is_spi_allref ANY pi ref_gt = Inl Assertion_failed"
  proof -
    from that res have "scan_calls ANY ref_gt (take ?n ?cs) = Inl Assertion_failed"
      by simp
    then obtain j where j: "j < length (take ?n ?cs)" "unat (base_id (take ?n ?cs ! j)) = ANY"
      "\<forall>k<j. ucast (base_id (take ?n ?cs ! k)) = ref_gt"
      using scan_calls_Assertion_failed by blast
    have jn: "j < ?n" using j(1) by simp
    have "j \<le> i"
    proof (rule ccontr)
      assume "\<not> j \<le> i"
      then have "i < j" by simp
      with j(3) have "ucast (base_id (take ?n ?cs ! i)) = ref_gt" by blast
      moreover have "take ?n ?cs ! i = ?cs ! i"
        using \<open>i < j\<close> jn by simp
      ultimately show False using assms(2) by simp
    qed
    moreover have "unat (base_id (?cs ! j)) = ANY"
      using j(2) jn by simp
    ultimately show ?thesis by blast
  qed

  have bounded: "is_spi_allref ANY pi ref_gt =
              is_spi_allref ANY (pi\<lparr>calls := take (Suc i) ?cs\<rparr>) ref_gt
            \<and> is_spi_allref ANY pi ref_gt \<noteq> Inr True
            \<and> ((\<forall>j\<le>i. unat (base_id (?cs ! j)) \<noteq> ANY) \<longrightarrow>
                 is_spi_allref ANY pi ref_gt = Inr False)"
    if small: "length ?cs < 2 ^ 32"
  proof -
    have n: "?n = length ?cs"
      using small by simp
    then have "i < ?n"
      using assms(1) by simp
    from cut [OF this] have whole: "is_spi_allref ANY pi ref_gt = scan_calls ANY ref_gt (take (Suc i) ?cs)"
      using res by simp
    have pre: "take (Suc i) ?cs = take i ?cs @ [?cs ! i]"
      using assms(1) by (rule take_Suc_conv_app_nth)
    have "length (take (Suc i) ?cs) < 2 ^ 32"
      using small by simp
    then have part: "is_spi_allref ANY (pi\<lparr>calls := take (Suc i) ?cs\<rparr>) ref_gt =
                   scan_calls ANY ref_gt (take (Suc i) ?cs)"
      using assms(1) by (simp add: is_spi_allref_scan min_absorb2 del: take_Suc_conv_app_nth)
    have nt: "scan_calls ANY ref_gt (take (Suc i) ?cs) \<noteq> Inr True"
      using scan_calls_nonref_not_True [OF assms(2), of ANY "take i ?cs"] pre by simp
    have fl: "scan_calls ANY ref_gt (take (Suc i) ?cs) = Inr False"
      if "\<forall>j\<le>i. unat (base_id (?cs ! j)) \<noteq> ANY"
    proof -
      have "\<forall>c\<in>set (take (Suc i) ?cs). unat (base_id c) \<noteq> ANY"
        using that assms(1)
        by (fastforce simp: in_set_conv_nth less_Suc_eq_le simp del: take_Suc_conv_app_nth)
      then have "scan_calls ANY ref_gt (take (Suc i) ?cs) =
                 Inr (\<forall>c\<in>set (take (Suc i) ?cs). ucast (base_id c) = ref_gt)"
        by (rule scan_calls_no_ANY)
      moreover have "?cs ! i \<in> set (take (Suc i) ?cs)"
        by (simp add: pre)
      ultimately show ?thesis
        using assms(2) by auto
    qed
    show ?thesis
      using whole part nt fl by simp
  qed
  show ?thesis
    using same early bounded by blast
qed

text \<open>
  Evidence \<open>[A, C, ANY]\<close> against \<open>A\<close>: the call at index 1 differs, the sentinel at index 2
  is never examined, the result is false, and it is the result for \<open>[A, C, A]\<close> too.
\<close>

theorem is_spi_allref_stops_at_first_nonref_witness:
  "is_spi_allref 4 \<lparr>calls = [\<lparr>base_id = 0\<rparr>, \<lparr>base_id = 1\<rparr>, \<lparr>base_id = 4\<rparr>]\<rparr> 0 = Inr False
   \<and> is_spi_allref 4 \<lparr>calls = [\<lparr>base_id = 0\<rparr>, \<lparr>base_id = 1\<rparr>, \<lparr>base_id = 0\<rparr>]\<rparr> 0 =
     is_spi_allref 4 \<lparr>calls = [\<lparr>base_id = 0\<rparr>, \<lparr>base_id = 1\<rparr>, \<lparr>base_id = 4\<rparr>]\<rparr> 0"
proof -
  note t = is_spi_allref_stops_at_first_nonref
    [of 1 "\<lparr>calls = [\<lparr>base_id = 0\<rparr>, \<lparr>base_id = 1\<rparr>, \<lparr>base_id = 4\<rparr>]\<rparr>" 0
        "\<lparr>calls = [\<lparr>base_id = 0\<rparr>, \<lparr>base_id = 1\<rparr>, \<lparr>base_id = 0\<rparr>]\<rparr>" 4]
  have 1: "is_spi_allref 4 \<lparr>calls = [\<lparr>base_id = 0\<rparr>, \<lparr>base_id = 1\<rparr>, \<lparr>base_id = 4\<rparr>]\<rparr> 0 = Inr False"
  proof -
    have "length (calls \<lparr>calls = [\<lparr>base_id = 0\<rparr>, \<lparr>base_id = 1\<rparr>, \<lparr>base_id = 4 :: 8 word\<rparr>]\<rparr>) < 2 ^ 32"
      by simp
    moreover have "\<forall>j\<le>1. unat (base_id
        (calls \<lparr>calls = [\<lparr>base_id = 0\<rparr>, \<lparr>base_id = 1\<rparr>, \<lparr>base_id = 4 :: 8 word\<rparr>]\<rparr> ! j)) \<noteq> 4"
      by (simp add: less_Suc_eq_le [symmetric] less_Suc_eq)
    moreover have "1 < length (calls \<lparr>calls = [\<lparr>base_id = 0\<rparr>, \<lparr>base_id = 1\<rparr>, \<lparr>base_id = 4 :: 8 word\<rparr>]\<rparr>)"
      and "ucast (base_id (calls \<lparr>calls = [\<lparr>base_id = 0\<rparr>, \<lparr>base_id = 1\<rparr>, \<lparr>base_id = 4 :: 8 word\<rparr>]\<rparr> ! 1))
            \<noteq> (0 :: 32 word)"
      by simp_all
    ultimately show ?thesis
      using t by blast
  qed
  have 2: "is_spi_allref 4 \<lparr>calls = [\<lparr>base_id = 0\<rparr>, \<lparr>base_id = 1\<rparr>, \<lparr>base_id = 0\<rparr>]\<rparr> 0 =
     is_spi_allref 4 \<lparr>calls = [\<lparr>base_id = 0\<rparr>, \<lparr>base_id = 1\<rparr>, \<lparr>base_id = 4\<rparr>]\<rparr> 0"
    using t [THEN conjunct1] by simp
  from 1 2 show ?thesis by simp
qed

text \<open>
  The claim as stated promises the result false for every evidence with a call that differs
  from the reference. Evidence \<open>[ANY]\<close> against \<open>A\<close> has such a call at index 0, and the
  function does not return false: the assertion fails at index 0. Evidence of \<open>2 ^ 32\<close>
  calls \<open>C\<close> against \<open>A\<close> has such a call at index 0 too, and the function returns true.
\<close>

theorem is_spi_allref_sentinel_counterexample:
  "ucast (base_id (calls \<lparr>calls = [\<lparr>base_id = 4\<rparr>]\<rparr> ! 0)) \<noteq> (0 :: 32 word)
   \<and> is_spi_allref 4 \<lparr>calls = [\<lparr>base_id = 4\<rparr>]\<rparr> 0 = Inl Assertion_failed
   \<and> ucast (base_id (calls \<lparr>calls = replicate 4294967296 \<lparr>base_id = 1\<rparr>\<rparr> ! 0)) \<noteq> (0 :: 32 word)
   \<and> is_spi_allref 4 \<lparr>calls = replicate 4294967296 \<lparr>base_id = 1\<rparr>\<rparr> 0 = Inr True"
  by (simp add: is_spi_allref_scan)

section \<open>Sparse position ledger\<close>

lemma val_inc: "val (inc b c) d = (if d = c then val b c + 1 else val b d)"
  by (simp add: val_def inc_def split: option.splits)

lemma val_clear_pos: "val (clear_pos b c) d = (if d = c then 0 else val b d)"
  by (simp add: val_def clear_pos_def)

lemma data_inc_same: "data (inc b c) c = Some (val b c + 1)"
  by (simp add: val_def inc_def split: option.splits)

lemma data_inc_other: "d \<noteq> c \<Longrightarrow> data (inc b c) d = data b d"
  by (simp add: inc_def split: option.splits)

lemma data_clear_pos: "data (clear_pos b c) d = (if d = c then None else data b d)"
  by (simp add: clear_pos_def)

lemma run_calls_Nil: "run_calls b [] = b"
  by (simp add: run_calls_def)

lemma run_calls_Cons: "run_calls b (x # cs) = run_calls (ledger_step b x) cs"
  by (simp add: run_calls_def)

lemma val_run_calls:
  "Clear_pos c \<notin> set cs \<Longrightarrow>
   val (run_calls b cs) c = val b c + of_nat (count_list cs (Inc c))"
proof (induction cs arbitrary: b)
  case Nil
  then show ?case by (simp add: run_calls_Nil)
next
  case (Cons x cs)
  then show ?case
    by (cases x) (auto simp: run_calls_Cons val_inc val_clear_pos)
qed

lemma val_run_calls_never_inc:
  "Inc c \<notin> set cs \<Longrightarrow> val b c = 0 \<Longrightarrow> val (run_calls b cs) c = 0"
proof (induction cs arbitrary: b)
  case Nil
  then show ?case by (simp add: run_calls_Nil)
next
  case (Cons x cs)
  then show ?case
    by (cases x) (auto simp: run_calls_Cons val_inc val_clear_pos)
qed

lemma val_init: "val depth_buffer_init c = 0"
  by (simp add: val_def depth_buffer_init_def)

lemma count_list_replicate: "count_list (replicate n x) x = n"
  by (induction n) auto

text \<open>
  Claim C6, as the code has it. On a ledger reached from the empty one by calls among
  which there is no \<open>inc(c)\<close>, \<open>val(c)\<close> is \<open>0\<close>. From any ledger in which the count of \<open>c\<close> is
  \<open>0\<close>, after calls among which \<open>n\<close> are \<open>inc(c)\<close> and none is \<open>clear_pos(c)\<close>, \<open>val(c)\<close> is
  \<open>n mod 2 ^ 32\<close>: the count is an \<open>unsigned\<close> and wraps. For \<open>n < 2 ^ 32\<close> that is \<open>n\<close>.
\<close>

theorem val_counts_inc:
  "(Inc c \<notin> set cs \<longrightarrow> val (run_calls depth_buffer_init cs) c = 0)
   \<and> (Clear_pos c \<notin> set cs \<and> val b c = 0 \<longrightarrow>
        unat (val (run_calls b cs) c) = count_list cs (Inc c) mod 2 ^ 32)"
  by (simp add: val_run_calls val_run_calls_never_inc val_init unat_of_nat)

text \<open>
  Coordinate 100 after calls that never increment it, and after three increments mixed
  with calls at other coordinates.
\<close>

theorem val_counts_inc_witness:
  "val (run_calls depth_buffer_init [Inc 101, Val 100, Clear_pos 102]) 100 = 0
   \<and> unat (val (run_calls depth_buffer_init [Inc 100, Inc 101, Val 100, Inc 100, Clear_pos 101, Inc 100]) 100) = 3"
  using val_counts_inc [of 100 "[Inc 101, Val 100, Clear_pos 102]" depth_buffer_init]
    val_counts_inc [of 100 "[Inc 100, Inc 101, Val 100, Inc 100, Clear_pos 101, Inc 100]" depth_buffer_init]
  by (simp add: val_init)

text \<open>
  The claim as stated, \<open>val(c) == n\<close> for every \<open>n\<close>, fails at \<open>n = 2 ^ 32\<close>: after that many
  calls of \<open>inc(0)\<close> on the empty ledger \<open>val(0)\<close> is \<open>0\<close>.
\<close>

theorem val_wraps_counterexample:
  "count_list (replicate 4294967296 (Inc 0)) (Inc 0) = 4294967296
   \<and> val (run_calls depth_buffer_init (replicate 4294967296 (Inc 0))) 0 = 0"
  by (simp add: count_list_replicate val_run_calls val_init)

text \<open>
  Claim C7. After \<open>clear_pos(c)\<close> on any ledger, \<open>val(c)\<close> is \<open>0\<close> and the entry of \<open>c\<close> is
  absent; a following \<open>inc(c)\<close> makes \<open>val(c)\<close> equal to \<open>1\<close> and stores what \<open>inc(c)\<close> stores
  on the empty ledger; and for every other coordinate \<open>d\<close> the entry and \<open>val(d)\<close> are
  unchanged by the eviction.
\<close>

theorem clear_pos_resets:
  "val (clear_pos b c) c = 0
   \<and> data (clear_pos b c) c = None
   \<and> val (inc (clear_pos b c) c) c = 1
   \<and> data (inc (clear_pos b c) c) c = data (inc depth_buffer_init c) c
   \<and> (d \<noteq> c \<longrightarrow> val (clear_pos b c) d = val b d \<and> data (clear_pos b c) d = data b d)"
  by (simp add: val_clear_pos val_inc data_clear_pos data_inc_same val_init)

text \<open>
  The scenario of the spec: one increment at each of 100, 101 and 102, then the eviction
  of 100.
\<close>

theorem clear_pos_resets_witness:
  "val (clear_pos (run_calls depth_buffer_init [Inc 100, Inc 101, Inc 102]) 100) 100 = 0
   \<and> val (clear_pos (run_calls depth_buffer_init [Inc 100, Inc 101, Inc 102]) 100) 101 = 1
   \<and> val (clear_pos (run_calls depth_buffer_init [Inc 100, Inc 101, Inc 102]) 100) 102 = 1
   \<and> val (inc (clear_pos (run_calls depth_buffer_init [Inc 100, Inc 101, Inc 102]) 100) 100) 100 = 1"
  using clear_pos_resets [of "run_calls depth_buffer_init [Inc 100, Inc 101, Inc 102]" 100 101]
    clear_pos_resets [of "run_calls depth_buffer_init [Inc 100, Inc 101, Inc 102]" 100 102]
  by (simp add: run_calls_def val_inc val_init)

lemma no_zero_entry_init: "no_zero_entry depth_buffer_init"
  by (simp add: no_zero_entry_def depth_buffer_init_def)

lemma no_zero_entry_inc:
  "no_zero_entry b \<Longrightarrow> val b c \<noteq> - 1 \<Longrightarrow> no_zero_entry (inc b c)"
  unfolding no_zero_entry_def
proof
  fix pos
  assume inv: "\<forall>pos. data b pos \<noteq> Some 0" and nmax: "val b c \<noteq> - 1"
  show "data (inc b c) pos \<noteq> Some 0"
  proof (cases "pos = c")
    case True
    have "val b c + 1 \<noteq> 0"
      using nmax by (metis add.commute add_eq_0_iff)
    then show ?thesis
      using True by (simp add: data_inc_same)
  next
    case False
    then show ?thesis
      using inv by (simp add: data_inc_other)
  qed
qed

lemma no_zero_entry_clear_pos: "no_zero_entry b \<Longrightarrow> no_zero_entry (clear_pos b c)"
  by (simp add: no_zero_entry_def data_clear_pos)

lemma no_zero_entry_run_calls:
  "no_zero_entry b \<Longrightarrow> no_overflow b cs \<Longrightarrow> no_zero_entry (run_calls b cs)"
proof (induction cs arbitrary: b)
  case Nil
  then show ?case by (simp add: run_calls_Nil)
next
  case (Cons x cs)
  show ?case
  proof (cases x)
    case (Val pos)
    with Cons show ?thesis by (simp add: run_calls_Cons)
  next
    case (Inc pos)
    with Cons show ?thesis by (simp add: run_calls_Cons no_zero_entry_inc)
  next
    case (Clear_pos pos)
    with Cons show ?thesis by (simp add: run_calls_Cons no_zero_entry_clear_pos)
  qed
qed

lemma absent_iff_zero: "no_zero_entry b \<Longrightarrow> (data b pos = None) = (val b pos = 0)"
  by (auto simp: no_zero_entry_def val_def split: option.splits)

text \<open>
  Claim C8, as the code has it. The empty ledger has no stored zero. From a ledger with no
  stored zero, every sequence of \<open>val\<close>, \<open>inc\<close> and \<open>clear_pos\<close> calls in which no \<open>inc\<close> meets a
  count of \<open>2 ^ 32 - 1\<close> leads to a ledger with no stored zero, in which a key is absent
  exactly when its count is zero. A call of \<open>val\<close> leaves the ledger as it is.
\<close>

theorem ledger_invariant:
  "no_zero_entry depth_buffer_init
   \<and> (no_zero_entry b \<and> no_overflow b cs \<longrightarrow>
        no_zero_entry (run_calls b cs)
        \<and> (data (run_calls b cs) pos = None) = (val (run_calls b cs) pos = 0))
   \<and> ledger_step b (Val pos) = b"
  by (simp add: no_zero_entry_init no_zero_entry_run_calls absent_iff_zero)

text \<open>A run from the empty ledger with all three calls.\<close>

theorem ledger_invariant_witness:
  "no_zero_entry (run_calls depth_buffer_init [Inc 100, Val 101, Inc 100, Clear_pos 100, Inc 102])
   \<and> data (run_calls depth_buffer_init [Inc 100, Val 101, Inc 100, Clear_pos 100, Inc 102]) 100 = None
   \<and> val (run_calls depth_buffer_init [Inc 100, Val 101, Inc 100, Clear_pos 100, Inc 102]) 102 = 1"
  using ledger_invariant [of depth_buffer_init "[Inc 100, Val 101, Inc 100, Clear_pos 100, Inc 102]" 100]
    ledger_invariant [of depth_buffer_init "[Inc 100, Val 101, Inc 100, Clear_pos 100, Inc 102]" 102]
  by (simp add: val_inc val_clear_pos val_init run_calls_def)

lemma data_run_calls_replicate_Inc:
  "data (run_calls b (replicate (Suc n) (Inc c))) c = Some (val b c + of_nat (Suc n))"
proof (induction n arbitrary: b)
  case 0
  then show ?case by (simp add: run_calls_Cons run_calls_Nil data_inc_same)
next
  case (Suc n)
  have "run_calls b (replicate (Suc (Suc n)) (Inc c)) = run_calls (inc b c) (replicate (Suc n) (Inc c))"
    by (simp add: run_calls_Cons)
  then show ?case
    using Suc [of "inc b c"] by (simp add: val_inc)
qed

text \<open>
  The claim as stated covers every sequence of calls. After \<open>2 ^ 32\<close> calls of \<open>inc(0)\<close> on
  the empty ledger the count has wrapped: the entry of 0 is present and holds zero.
\<close>

theorem ledger_zero_entry_counterexample:
  "data (run_calls depth_buffer_init (replicate 4294967296 (Inc 0))) 0 = Some 0
   \<and> \<not> no_zero_entry (run_calls depth_buffer_init (replicate 4294967296 (Inc 0)))"
proof -
  have "data (run_calls depth_buffer_init (replicate (Suc 4294967295) (Inc 0))) 0
        = Some (val depth_buffer_init 0 + of_nat (Suc 4294967295))"
    by (rule data_run_calls_replicate_Inc)
  then have "data (run_calls depth_buffer_init (replicate 4294967296 (Inc 0))) 0 = Some 0"
    by (simp add: val_init)
  then show ?thesis
    by (auto simp: no_zero_entry_def)
qed

section \<open>Stage-gated position processor\<close>

lemma check_process_pos_all_skip:
  "is_skip_process_pos p \<Longrightarrow> check_process_pos_all process_pos p cs = p"
  unfolding check_process_pos_all_def
  by (induction cs) (auto simp: check_process_pos_def)

text \<open>
  Claim C4. Let the skip flag of a processor be set. Whatever the subclass's \<open>process_pos\<close>
  is, a call \<open>check_process_pos(stage_no, pos)\<close> returns the processor as it was, for every
  \<open>stage_no\<close> and \<open>pos\<close>, and so does any sequence of such calls: the hook is never invoked.
  For the recording stub the list of invocations stays as it was.
\<close>

theorem check_process_pos_suppressed:
  assumes "is_skip_process_pos p"
  shows "check_process_pos process_pos p stage_no pos = p
       \<and> check_process_pos_all process_pos p cs = p
       \<and> (is_skip_process_pos q \<longrightarrow>
            invocations (check_process_pos_all recording_process_pos q cs) = invocations q)"
  using assms by (simp add: check_process_pos_all_skip) (simp add: check_process_pos_def)

text \<open>A suppressed recording stub with one earlier invocation, dispatched three times.\<close>

theorem check_process_pos_suppressed_witness:
  "invocations (check_process_pos_all recording_process_pos
     \<lparr>is_skip_process_pos = True, invocations = [(0, 100)]\<rparr> [(0, 101), (1, 100), (1, 101)]) = [(0, 100)]
   \<and> check_process_pos recording_process_pos
     \<lparr>is_skip_process_pos = True, invocations = [(0, 100)]\<rparr> 0 101 = \<lparr>is_skip_process_pos = True, invocations = [(0, 100)]\<rparr>"
  using check_process_pos_suppressed [of "\<lparr>is_skip_process_pos = True, invocations = [(0, 100)]\<rparr>"
      recording_process_pos 0 101 "[(0, 101), (1, 100), (1, 101)]"
      "\<lparr>is_skip_process_pos = True, invocations = [(0, 100)]\<rparr>"]
  by simp

text \<open>
  Claim C5. Let the skip flag of a processor be clear, as it is in a newly constructed
  \<open>pos_processor_base\<close>. Then a call \<open>check_process_pos(stage_no, pos)\<close> is one application of
  the subclass's \<open>process_pos\<close> to the same \<open>stage_no\<close> and \<open>pos\<close>. For the recording stub
  the list of invocations grows by exactly the one entry \<open>(stage_no, pos)\<close>.
\<close>

theorem check_process_pos_active:
  assumes "\<not> is_skip_process_pos p"
  shows "check_process_pos process_pos p stage_no pos = process_pos p stage_no pos
       \<and> \<not> is_skip_process_pos (pos_processor_base_init sub)
       \<and> (\<not> is_skip_process_pos q \<longrightarrow>
            invocations (check_process_pos recording_process_pos q stage_no pos) =
              invocations q @ [(stage_no, pos)])"
  using assms
  by (simp add: check_process_pos_def pos_processor_base_init_def recording_process_pos_def)

text \<open>A newly constructed recording stub, dispatched once.\<close>

theorem check_process_pos_active_witness:
  "invocations (check_process_pos recording_process_pos
      (pos_processor_base_init (recording_processor.fields [])) 2 100) = [(2, 100)]
   \<and> \<not> is_skip_process_pos (pos_processor_base_init (recording_processor.fields []))"
  using check_process_pos_active [of "pos_processor_base_init (recording_processor.fields [])"
      recording_process_pos 2 100 "recording_processor.fields []"
      "pos_processor_base_init (recording_processor.fields [])"]
  by (simp add: pos_processor_base_init_def recording_processor.defs recording_process_pos_def)

section \<open>Filter encoder\<close>

declare write_filters_loop.simps [simp del]

lemma join_labels_Cons: "ls \<noteq> [] \<Longrightarrow> join_labels (l # ls) = l @ '';'' @ join_labels ls"
  by (cases ls) simp_all

lemma write_filters_loop_join:
  "write_filters_loop get_label (fs :: 'n::len word) i is_sep os =
     Inr (if filter (bit fs) [i..<LENGTH('n)] = [] then os
          else os @ (if is_sep then '';'' else []) @
               join_labels (map get_label (filter (bit fs) [i..<LENGTH('n)])))"
proof (induction get_label fs i is_sep os rule: write_filters_loop.induct)
  case (1 get_label fs i is_sep os)
  show ?case
  proof (cases "i < LENGTH('n)")
    case False
    then show ?thesis
      by (simp add: write_filters_loop.simps [of get_label fs i is_sep os])
  next
    case True
    then have upt: "[i..<LENGTH('n)] = i # [Suc i..<LENGTH('n)]"
      by (rule upt_conv_Cons)
    show ?thesis
    proof (cases "bit fs i")
      case False
      then show ?thesis
        using True "1.IH"(2) [of False]
        by (simp add: write_filters_loop.simps [of get_label fs i is_sep os] bitset_test_def upt)
    next
      case bit: True
      have step: "write_filters_loop get_label fs i is_sep os =
                  write_filters_loop get_label fs (Suc i) True
                    ((if is_sep then os @ '';'' else os) @ get_label i)"
        using True bit
        by (simp add: write_filters_loop.simps [of get_label fs i is_sep os] bitset_test_def)
      show ?thesis
        using True bit "1.IH"(1) [of True]
        by (simp add: step bitset_test_def upt join_labels_Cons)
    qed
  qed
qed

lemma bitset_none_iff: "bitset_none bs = (set_kinds bs = [])"
proof
  assume "bitset_none bs"
  then show "set_kinds bs = []"
    by (simp add: bitset_none_def set_kinds_def)
next
  assume e: "set_kinds bs = []"
  have "bs = 0"
  proof (rule bit_word_eqI)
    fix n assume "n < LENGTH('a)"
    then have "n \<in> set [0..<LENGTH('a)]" by simp
    then have "\<not> bit bs n"
      using e unfolding set_kinds_def filter_empty_conv by blast
    then show "bit bs n = bit (0 :: 'a word) n" by simp
  qed
  then show "bitset_none bs" by (simp add: bitset_none_def)
qed

lemma write_filters_join:
  "\<not> bitset_none (filters r) \<Longrightarrow>
   write_filters get_label r os = Inr (os @ join_labels (map get_label (set_kinds (filters r))))"
  using bitset_none_iff [of "filters r"]
  by (simp add: write_filters_def write_filters_loop_join set_kinds_def)

lemma set_set_kinds: "set (set_kinds (bs :: 'n::len word)) = {i. bit bs i}"
  by (auto simp: set_kinds_def bit_imp_le_length)

lemma set_kinds_sorted_list: "set_kinds bs = sorted_list_of_set {i. bit bs i}"
proof -
  have "sorted (set_kinds bs)" "distinct (set_kinds bs)"
    by (simp_all add: set_kinds_def sorted_wrt_filter)
  then have "sorted_list_of_set (set (set_kinds bs)) = set_kinds bs"
    by (rule sorted_list_of_set.idem_if_sorted_distinct)
  then show ?thesis by (simp add: set_set_kinds)
qed


lemma join_labels_Nil_iff: "ls \<noteq> [] \<Longrightarrow> \<forall>l\<in>set ls. l \<noteq> [] \<Longrightarrow> join_labels ls \<noteq> []"
  by (induction ls rule: join_labels.induct) auto

lemma hd_join_labels: "ls \<noteq> [] \<Longrightarrow> hd ls \<noteq> [] \<Longrightarrow> hd (join_labels ls) = hd (hd ls)"
  by (induction ls rule: join_labels.induct) auto

lemma last_join_labels:
  "ls \<noteq> [] \<Longrightarrow> \<forall>l\<in>set ls. l \<noteq> [] \<Longrightarrow> last (join_labels ls) = last (last ls)"
proof (induction ls rule: join_labels.induct)
  case (3 l m ls)
  then have "join_labels (m # ls) \<noteq> []"
    by (intro join_labels_Nil_iff) auto
  with 3 show ?case by simp
qed auto

lemma count_sep_join_labels:
  "ls \<noteq> [] \<Longrightarrow> \<forall>l\<in>set ls. CHR '';'' \<notin> set l \<Longrightarrow>
   Suc (length (filter (\<lambda>c. c = CHR '';'') (join_labels ls))) = length ls"
proof (induction ls rule: join_labels.induct)
  case (2 l)
  then have "filter (\<lambda>c. c = CHR '';'') l = []"
    by (auto simp: filter_empty_conv)
  then show ?case by simp
next
  case (3 l m ls)
  then have "filter (\<lambda>c. c = CHR '';'') l = []"
    by (auto simp: filter_empty_conv)
  with 3 show ?case by simp
qed auto

lemma label_ok_iff:
  "label_ok l = (l \<noteq> [] \<and> (\<forall>c\<in>set l. \<not> is_space c \<and> c \<noteq> CHR '';''))"
  by (auto simp: label_ok_def list_ex_iff)

lemma join_labels_shape:
  assumes ne: "ls \<noteq> []" and ok: "\<forall>l\<in>set ls. label_ok l"
  shows "join_labels ls \<noteq> []
       \<and> \<not> is_space (hd (join_labels ls)) \<and> \<not> is_space (last (join_labels ls))
       \<and> hd (join_labels ls) \<noteq> CHR '';'' \<and> last (join_labels ls) \<noteq> CHR '';''
       \<and> Suc (length (filter (\<lambda>c. c = CHR '';'') (join_labels ls))) = length ls"
proof -
  have nonempty: "\<forall>l\<in>set ls. l \<noteq> []"
    using ok by (simp add: label_ok_iff)
  have nosep: "\<forall>l\<in>set ls. CHR '';'' \<notin> set l"
    using ok by (auto simp: label_ok_iff)
  have h: "hd ls \<in> set ls" and l: "last ls \<in> set ls"
    using ne by simp_all
  have hd_in: "hd (hd ls) \<in> set (hd ls)" and last_in: "last (last ls) \<in> set (last ls)"
    using nonempty h l by simp_all
  have "hd (join_labels ls) = hd (hd ls)"
    using ne nonempty h by (simp add: hd_join_labels)
  moreover have "last (join_labels ls) = last (last ls)"
    using ne nonempty by (rule last_join_labels)
  moreover have "\<not> is_space (hd (hd ls)) \<and> hd (hd ls) \<noteq> CHR '';''"
    using ok h hd_in unfolding label_ok_iff by blast
  moreover have "\<not> is_space (last (last ls)) \<and> last (last ls) \<noteq> CHR '';''"
    using ok l last_in unfolding label_ok_iff by blast
  ultimately show ?thesis
    using join_labels_Nil_iff [OF ne nonempty] count_sep_join_labels [OF ne nosep] by simp
qed

lemma bitset_set_all_bits:
  "\<forall>i\<in>set is. i < LENGTH('n) \<Longrightarrow>
   \<exists>bs'. bitset_set_all (bs :: 'n::len word) is = Inr bs' \<and>
         (\<forall>k. bit bs' k = (bit bs k \<or> k \<in> set is))"
proof (induction "is" arbitrary: bs)
  case Nil
  then show ?case by simp
next
  case (Cons i "is")
  then have "\<exists>bs'. bitset_set_all (set_bit i bs) is = Inr bs' \<and>
         (\<forall>k. bit bs' k = (bit (set_bit i bs) k \<or> k \<in> set is))"
    by simp
  then obtain bs' where s: "bitset_set_all (set_bit i bs) is = Inr bs'"
    and b: "\<forall>k. bit bs' k = (bit (set_bit i bs) k \<or> k \<in> set is)"
    by blast
  have i: "i < LENGTH('n)" using Cons.prems by simp
  have "\<forall>k. bit bs' k = (bit bs k \<or> k \<in> set (i # is))"
    using b i by (auto simp: bit_set_bit_iff possible_bit_word)
  then show ?case
    using s i by (simp add: bitset_set_def)
qed

lemma bitset_set_all_order:
  assumes "set is = set js" and "\<forall>i\<in>set is. i < LENGTH('n)"
  shows "bitset_set_all (bs :: 'n::len word) is = bitset_set_all bs js"
proof -
  obtain b1 where 1: "bitset_set_all bs is = Inr b1" "\<forall>k. bit b1 k = (bit bs k \<or> k \<in> set is)"
    using bitset_set_all_bits [OF assms(2), of bs] by blast
  have "\<forall>i\<in>set js. i < LENGTH('n)"
    using assms by simp
  then obtain b2 where 2: "bitset_set_all bs js = Inr b2" "\<forall>k. bit b2 k = (bit bs k \<or> k \<in> set js)"
    using bitset_set_all_bits [of js bs] by blast
  have "b1 = b2"
    using 1(2) 2(2) assms(1) by (intro bit_eqI) simp
  then show ?thesis
    using 1(1) 2(1) by simp
qed

text \<open>
  Claim C1. For every record whose filter set is not empty, \<open>write_filters\<close> appends to the
  stream the labels of the set filter kinds, joined by \<open>;\<close>, and throws nothing. The set
  filter kinds are taken in ascending index order, each once: they are the sorted list of
  the set of set bits, so the text depends on the bit-set alone. When the labels of the
  set kinds are not empty and hold neither whitespace nor \<open>;\<close>, the text is not empty, it
  neither begins nor ends with whitespace or with a separator, and it holds one separator
  less than there are set kinds (none for a single set bit). Setting the same filter kinds
  in two different orders before writing gives the same output.
\<close>

theorem write_filters_labels:
  assumes "\<not> bitset_none (filters r)"
  shows "write_filters get_label r os =
           Inr (os @ join_labels (map get_label (set_kinds (filters r))))
       \<and> set_kinds (filters r) = sorted_list_of_set {i. bit (filters r) i}
       \<and> ((\<forall>i \<in> set (set_kinds (filters r)). label_ok (get_label i)) \<longrightarrow>
            (let e = join_labels (map get_label (set_kinds (filters r))) in
             e \<noteq> [] \<and> \<not> is_space (hd e) \<and> \<not> is_space (last e)
             \<and> hd e \<noteq> CHR '';'' \<and> last e \<noteq> CHR '';''
             \<and> Suc (length (filter (\<lambda>c. c = CHR '';'') e)) = length (set_kinds (filters r))))
       \<and> (set is = set js \<and> (\<forall>i\<in>set is. i < size (filters r)) \<longrightarrow>
            write_filters_after_set get_label r is os = write_filters_after_set get_label r js os)"
proof -
  have ne: "map get_label (set_kinds (filters r)) \<noteq> []"
    using assms by (simp add: bitset_none_iff)
  have shape: "(let e = join_labels (map get_label (set_kinds (filters r))) in
             e \<noteq> [] \<and> \<not> is_space (hd e) \<and> \<not> is_space (last e)
             \<and> hd e \<noteq> CHR '';'' \<and> last e \<noteq> CHR '';''
             \<and> Suc (length (filter (\<lambda>c. c = CHR '';'') e)) = length (set_kinds (filters r)))"
    if "\<forall>i \<in> set (set_kinds (filters r)). label_ok (get_label i)"
  proof -
    have "\<forall>l\<in>set (map get_label (set_kinds (filters r))). label_ok l"
      using that by simp
    from join_labels_shape [OF ne this] show ?thesis
      by (simp add: Let_def)
  qed
  have order: "write_filters_after_set get_label r is os = write_filters_after_set get_label r js os"
    if "set is = set js" "\<forall>i\<in>set is. i < size (filters r)"
    using bitset_set_all_order [of "is" js "filters r"] that
    by (simp add: write_filters_after_set_def word_size)
  show ?thesis
    using write_filters_join [OF assms] set_kinds_sorted_list [of "filters r"] shape order
    by blast
qed


lemma join_labels_PASS:
  assumes "ks \<noteq> []" and "join_labels (map get_label ks) = ''PASS''"
  shows "\<exists>k\<in>set ks. get_label k = ''PASS''"
proof (cases ks)
  case Nil
  with assms show ?thesis by simp
next
  case (Cons k ks')
  show ?thesis
  proof (cases ks')
    case Nil
    with Cons assms show ?thesis by simp
  next
    case (Cons k' ks'')
    have "CHR '';'' \<in> set (join_labels (map get_label ks))"
      using \<open>ks = k # ks'\<close> Cons by simp
    then show ?thesis
      using assms(2) by simp
  qed
qed

text \<open>
  Claim C2. Provided no filter kind has the label \<open>PASS\<close>, \<open>write_filters\<close> appends exactly
  the token \<open>PASS\<close> to the stream if and only if no bit of the record's filter set is set.
  A record with all five booleans false and an empty filter set encodes to \<open>PASS\<close>.
\<close>

theorem write_filters_PASS_iff_none:
  assumes "\<forall>i<LENGTH('n). get_label i \<noteq> ''PASS''"
  shows "(write_filters get_label (r :: ('n::len, 'm) shared_modifiers_scheme) os = Inr (os @ ''PASS''))
           = bitset_none (filters r)
       \<and> write_filters get_label
           \<lparr>filters = (0 :: 'n word), is_unknown = False, is_covered = False,
            is_used_covered = False, is_zero_ploidy = False, is_block = False,
            modified_gt = gt\<rparr> os = Inr (os @ ''PASS'')"
proof -
  have "write_filters get_label r os \<noteq> Inr (os @ ''PASS'')" if nn: "\<not> bitset_none (filters r)"
  proof
    assume "write_filters get_label r os = Inr (os @ ''PASS'')"
    then have "join_labels (map get_label (set_kinds (filters r))) = ''PASS''"
      using write_filters_join [OF nn, of get_label os] by simp
    moreover have "set_kinds (filters r) \<noteq> []"
      using nn by (simp add: bitset_none_iff)
    ultimately obtain k where "k \<in> set (set_kinds (filters r))" "get_label k = ''PASS''"
      using join_labels_PASS by blast
    then show False
      using assms by (auto simp: set_kinds_def)
  qed
  then show ?thesis
    by (auto simp: write_filters_def bitset_none_def)
qed

text \<open>
  With the labels \<open>F1\<close>, \<open>F2\<close>, \<open>F3\<close>: the empty record encodes to \<open>PASS\<close>, a record with \<open>F2\<close> set
  does not.
\<close>

theorem write_filters_PASS_iff_none_witness:
  "write_filters F_label \<lparr>filters = (0 :: 3 word), is_unknown = False, is_covered = False,
      is_used_covered = False, is_zero_ploidy = False, is_block = False, modified_gt = 0\<rparr> [] = Inr ''PASS''
   \<and> write_filters F_label \<lparr>filters = (2 :: 3 word)\<rparr> [] \<noteq> Inr ''PASS''"
  using write_filters_PASS_iff_none [of F_label "\<lparr>filters = (2 :: 3 word)\<rparr>" "[]" 0]
  by (simp add: F_label_def bitset_none_def less_Suc_eq numeral_3_eq_3)

lemma set_kinds_3: "set_kinds (bs :: 3 word) = filter (bit bs) [0, Suc 0, Suc (Suc 0)]"
  by (simp add: set_kinds_def upt_rec numeral_3_eq_3)

text \<open>
  The example of the spec: bits \<open>{F1, F3}\<close> of three encode to \<open>F1;F3\<close>; setting \<open>F2\<close> then \<open>F1\<close>
  or \<open>F1\<close> then \<open>F2\<close> on a record that has \<open>F3\<close> gives \<open>F1;F2;F3\<close>.
\<close>

theorem write_filters_labels_witness:
  "\<not> bitset_none (5 :: 3 word)
   \<and> list_all (\<lambda>i. label_ok (F_label i)) (set_kinds (5 :: 3 word))
   \<and> write_filters F_label \<lparr>filters = (5 :: 3 word)\<rparr> [] = Inr ''F1;F3''
   \<and> write_filters_after_set F_label \<lparr>filters = (4 :: 3 word)\<rparr> [1, 0] [] =
     write_filters_after_set F_label \<lparr>filters = (4 :: 3 word)\<rparr> [0, 1] []
   \<and> write_filters_after_set F_label \<lparr>filters = (4 :: 3 word)\<rparr> [0, 1] [] = Inr ''F1;F2;F3''"
proof -
  have 1: "write_filters F_label \<lparr>filters = (5 :: 3 word)\<rparr> [] = Inr ''F1;F3''"
    using write_filters_labels [of "\<lparr>filters = (5 :: 3 word)\<rparr>" F_label "[]" "[1, 0]" "[0, 1]"]
    by (simp add: bitset_none_def set_kinds_3 F_label_def)
  have 2: "write_filters_after_set F_label \<lparr>filters = (4 :: 3 word)\<rparr> [1, 0] [] =
     write_filters_after_set F_label \<lparr>filters = (4 :: 3 word)\<rparr> [0, 1] []"
    using write_filters_labels [of "\<lparr>filters = (4 :: 3 word)\<rparr>" F_label "[]" "[1, 0]" "[0, 1]"]
    by (auto simp add: bitset_none_def word_size)
  have 3: "write_filters_after_set F_label \<lparr>filters = (4 :: 3 word)\<rparr> [0, 1] [] = Inr ''F1;F2;F3''"
    using write_filters_labels [of "\<lparr>filters = (7 :: 3 word)\<rparr>" F_label "[]" "[1, 0]" "[0, 1]"]
    by (simp add: write_filters_after_set_def bitset_set_def set_bit_eq_or
        bitset_none_def set_kinds_3 F_label_def)
  have 4: "\<not> bitset_none (5 :: 3 word)
           \<and> list_all (\<lambda>i. label_ok (F_label i)) (set_kinds (5 :: 3 word))"
    by (simp add: bitset_none_def set_kinds_3 F_label_def label_ok_def is_space_def)
  from 1 2 3 4 show ?thesis by simp
qed

section \<open>Counting bases\<close>

declare get_seq_counts_loop.simps [simp del]

lemma mod_256_shift:
  assumes "0 \<le> (u :: int)" and "u < 256"
  shows "(u + 128) mod 256 = (if u < 128 then u + 128 else u - 128)"
proof (cases "u < 128")
  case True
  with assms show ?thesis by simp
next
  case False
  have "u + 128 = (u - 128) + 256"
    by arith
  then have "(u + 128) mod 256 = ((u - 128) + 256) mod 256"
    by (rule arg_cong)
  also have "\<dots> = (u - 128) mod 256"
    by (rule mod_add_self2)
  also have "\<dots> = u - 128"
    using False assms by simp
  finally show ?thesis
    using False by simp
qed

lemma sint_byte: "sint (b :: byte) = (if b < 0x80 then uint b else uint b - 256)"
proof -
  have s: "sint b = (uint b + 128) mod 256 - 128"
    by (simp add: sint_uint signed_take_bit_eq_take_bit_shift take_bit_eq_mod)
  have u: "0 \<le> uint b" "uint b < 256"
    using uint_lt2p [of b] by simp_all
  have l: "(b < 0x80) = (uint b < 128)"
    by (simp add: word_less_def)
  show ?thesis
    unfolding s mod_256_shift [OF u] l by simp
qed

lemma isBase_at_sint:
  "isBase_at (sint (b :: byte)) = (if b < 0x80 then Inr (isBase ! unat b) else Inl Out_of_bounds)"
proof -
  have "0 \<le> uint b" "uint b < 256"
    using uint_lt2p [of b] by simp_all
  moreover have "(b < 0x80) = (uint b < 128)"
    by (simp add: word_less_def)
  ultimately show ?thesis
    by (simp add: isBase_at_def sint_byte)
qed

lemma get_seq_counts_loop_continue:
  "getline_chars 511 ref_is = (buff, ref_is', e) \<Longrightarrow> \<not> (e = Hit_eof \<and> buff = []) \<Longrightarrow>
   process_line st buff (e = Hit_count) = Inr (Continue st') \<Longrightarrow>
   get_seq_counts_loop st ref_is = get_seq_counts_loop st' ref_is'"
  by (subst get_seq_counts_loop.simps) auto

lemma get_seq_counts_loop_error:
  "getline_chars 511 ref_is = (buff, ref_is', e) \<Longrightarrow> \<not> (e = Hit_eof \<and> buff = []) \<Longrightarrow>
   process_line st buff (e = Hit_count) = Inl err \<Longrightarrow>
   get_seq_counts_loop st ref_is = Inl err"
  by (subst get_seq_counts_loop.simps) auto

lemma get_seq_counts_loop_eof:
  "get_seq_counts_loop st [] = Inr (True, st)"
  by (subst get_seq_counts_loop.simps) simp

text \<open>
  Claim C10 says that the index \<open>static_cast<int8_t>(*b)\<close> into \<open>isBase\<close> is never negative.
  The code does not keep that: every byte from \<open>0x80\<close> on has a negative index
  (\<open>isBase_at_sint\<close>), and such a byte reaches the counting loop on any sequence line. For
  the input \<open>>c\<close>, newline, \<open>0x80\<close>, newline the index is \<open>-128\<close> and \<open>get_seq_counts\<close> reads
  outside the table.
\<close>

theorem get_seq_counts_high_byte_out_of_bounds:
  "sint (0x80 :: byte) = - 128
   \<and> isBase_at (sint (0x80 :: byte)) = Inl Out_of_bounds
   \<and> get_seq_counts [0x3E, 0x63, 0x0A, 0x80, 0x0A] ''f'' = Inl Out_of_bounds"
proof -
  let ?init = "\<lparr>is_header_wrap = False, line_no = 0, sr = scan_result_init ''f'', report_os = []\<rparr>"
  let ?next = "\<lparr>is_header_wrap = False, line_no = 1,
               sr = \<lparr>fileName = ''f'', contigName = [0x63], knownCount = 0, totalCount = 0, isSet = True\<rparr>,
               report_os = []\<rparr>"
  have s: "sint (0x80 :: byte) = - 128"
    by simp
  have b: "isBase_at (sint (0x80 :: byte)) = Inl Out_of_bounds"
    by (simp add: isBase_at_def)
  have g1: "getline_chars 511 [0x3E, 0x63, 0x0A, 0x80, 0x0A :: byte] = ([0x3E, 0x63], [0x80, 0x0A], Hit_delim)"
    by simp
  have p1: "process_line ?init [0x3E, 0x63] (Hit_delim = Hit_count) = Inr (Continue ?next)"
    by (simp add: process_line_def c_str_def scan_result_init_def report_def reset_def isspace_def)
  have g2: "getline_chars 511 [0x80, 0x0A :: byte] = ([0x80], [], Hit_delim)"
    by simp
  have p2: "process_line ?next [0x80] (Hit_delim = Hit_count) = Inl Out_of_bounds"
    by (simp add: process_line_def c_str_def isBase_at_def Let_def word_le_def)
  have "get_seq_counts_loop ?init [0x3E, 0x63, 0x0A, 0x80, 0x0A] = get_seq_counts_loop ?next [0x80, 0x0A]"
    using g1 _ p1 by (rule get_seq_counts_loop_continue) simp
  moreover have "get_seq_counts_loop ?next [0x80, 0x0A] = Inl Out_of_bounds"
    using g2 _ p2 by (rule get_seq_counts_loop_error) simp
  ultimately show ?thesis
    using s b by (simp add: get_seq_counts_def)
qed


text \<open>
  On bytes below \<open>0x80\<close> the model counts as the program does: \<open>>c\<close>, \<open>AN\<close> with a carriage
  return, and \<open>g\<close> give two known bases out of three.
\<close>

lemma get_seq_counts_ascii:
  "get_seq_counts [0x3E, 0x63, 0x0A, 0x41, 0x4E, 0x0D, 0x0A, 0x67, 0x0A] ''f'' =
     Inr (True, [(''f'', [0x63], 2, 3)])"
proof -
  let ?res = "\<lambda>k t. \<lparr>fileName = ''f'', contigName = [0x63], knownCount = k, totalCount = t, isSet = True\<rparr>"
  let ?at = "\<lambda>n k t. \<lparr>is_header_wrap = False, line_no = n, sr = ?res k t, report_os = []\<rparr>"
  let ?init = "\<lparr>is_header_wrap = False, line_no = 0, sr = scan_result_init ''f'', report_os = []\<rparr>"
  have g1: "getline_chars 511 [0x3E, 0x63, 0x0A, 0x41, 0x4E, 0x0D, 0x0A, 0x67, 0x0A :: byte] =
            ([0x3E, 0x63], [0x41, 0x4E, 0x0D, 0x0A, 0x67, 0x0A], Hit_delim)"
    by simp
  have p1: "process_line ?init [0x3E, 0x63] (Hit_delim = Hit_count) = Inr (Continue (?at 1 0 0))"
    by (simp add: process_line_def c_str_def scan_result_init_def report_def reset_def isspace_def)
  have g2: "getline_chars 511 [0x41, 0x4E, 0x0D, 0x0A, 0x67, 0x0A :: byte] =
            ([0x41, 0x4E, 0x0D], [0x67, 0x0A], Hit_delim)"
    by simp
  have p2: "process_line (?at 1 0 0) [0x41, 0x4E, 0x0D] (Hit_delim = Hit_count) =
            Inr (Continue (?at 2 1 2))"
    by (simp add: process_line_def c_str_def isBase_at_def isBase_def Let_def word_le_def)
  have g3: "getline_chars 511 [0x67, 0x0A :: byte] = ([0x67], [], Hit_delim)"
    by simp
  have p3: "process_line (?at 2 1 2) [0x67] (Hit_delim = Hit_count) = Inr (Continue (?at 3 2 3))"
    by (simp add: process_line_def c_str_def isBase_at_def isBase_def Let_def word_le_def)
  have "get_seq_counts_loop ?init [0x3E, 0x63, 0x0A, 0x41, 0x4E, 0x0D, 0x0A, 0x67, 0x0A] =
        get_seq_counts_loop (?at 1 0 0) [0x41, 0x4E, 0x0D, 0x0A, 0x67, 0x0A]"
    using g1 _ p1 by (rule get_seq_counts_loop_continue) simp
  also have "\<dots> = get_seq_counts_loop (?at 2 1 2) [0x67, 0x0A]"
    using g2 _ p2 by (rule get_seq_counts_loop_continue) simp
  also have "\<dots> = get_seq_counts_loop (?at 3 2 3) []"
    using g3 _ p3 by (rule get_seq_counts_loop_continue) simp
  also have "\<dots> = Inr (True, ?at 3 2 3)"
    by (rule get_seq_counts_loop_eof)
  finally show ?thesis
    by (simp add: get_seq_counts_def report_def)
qed

end
